theory Spec2Isabelle
  imports Complex_Main "HOL-Library.Sublist"
begin

section \<open>Python values that travel through the connection\<close>

text \<open>
  Frames are JSON texts. \<^verbatim>\<open>json.loads\<close> turns a text into a Python value; the model
  works on that value. An integer literal decodes to \<open>JInt\<close>, a literal with a fraction
  or an exponent to \<open>JFloat\<close> (a rational here: every finite float is one, and the
  non-finite floats behave like any non-integral float wherever this program looks at a
  value), \<^verbatim>\<open>null\<close> and Python's \<^verbatim>\<open>None\<close> are both \<open>JNull\<close>. An object is an
  association list read with \<open>map_of\<close>.
\<close>

datatype json =
    JNull
  | JBool bool
  | JInt int
  | JFloat rat
  | JStr string
  | JList "json list"
  | JObj "(string \<times> json) list"

text \<open>
  The exceptions the modelled code can see. \<open>External\<close> is raised by a collaborator that
  is not part of the repository (the transport, the agent, a schema or argument converter).
  \<open>CancelledError\<close> is no \<^verbatim>\<open>Exception\<close> in Python: no handler of this code catches it.
\<close>

datatype exn =
    TypeError
  | AttributeError
  | KeyError
  | ValidationError
  | TimeoutError
  | RuntimeError
  | CancelledError
  | External string

text \<open>Truthiness, as \<^verbatim>\<open>if message:\<close>, \<^verbatim>\<open>if message_id:\<close> and \<^verbatim>\<open>if params:\<close> test it.\<close>

fun truthy :: "json \<Rightarrow> bool" where
  "truthy JNull = False"
| "truthy (JBool b) = b"
| "truthy (JInt n) = (n \<noteq> 0)"
| "truthy (JFloat x) = (x \<noteq> 0)"
| "truthy (JStr s) = (s \<noteq> [])"
| "truthy (JList xs) = (xs \<noteq> [])"
| "truthy (JObj kvs) = (kvs \<noteq> [])"

text \<open>
  \<^verbatim>\<open>key in value\<close> for a string key: membership among a dict's keys, among a list's
  elements, substring of a string; any other operand is not iterable.
\<close>

fun py_in :: "string \<Rightarrow> json \<Rightarrow> exn + bool" where
  "py_in k (JObj kvs) = Inr (k \<in> set (map fst kvs))"
| "py_in k (JList xs) = Inr (JStr k \<in> set xs)"
| "py_in k (JStr s) = Inr (sublist k s)"
| "py_in k JNull = Inl TypeError"
| "py_in k (JBool b) = Inl TypeError"
| "py_in k (JInt n) = Inl TypeError"
| "py_in k (JFloat x) = Inl TypeError"

text \<open>
  \<^verbatim>\<open>value.get(key, default)\<close>: only a dict has the method. \<^verbatim>\<open>value.get(key)\<close> is
  \<open>py_get v key JNull\<close>.
\<close>

fun py_get :: "json \<Rightarrow> string \<Rightarrow> json \<Rightarrow> exn + json" where
  "py_get (JObj kvs) k d = Inr (case map_of kvs k of None \<Rightarrow> d | Some v \<Rightarrow> v)"
| "py_get JNull k d = Inl AttributeError"
| "py_get (JBool b) k d = Inl AttributeError"
| "py_get (JInt n) k d = Inl AttributeError"
| "py_get (JFloat x) k d = Inl AttributeError"
| "py_get (JStr s) k d = Inl AttributeError"
| "py_get (JList xs) k d = Inl AttributeError"

text \<open>
  \<^verbatim>\<open>value[key]\<close> for a string key: a dict raises KeyError on a missing key; a list and
  a string accept only integer indices; nothing else is subscriptable.
\<close>

fun py_index :: "json \<Rightarrow> string \<Rightarrow> exn + json" where
  "py_index (JObj kvs) k = (case map_of kvs k of None \<Rightarrow> Inl KeyError | Some v \<Rightarrow> Inr v)"
| "py_index JNull k = Inl TypeError"
| "py_index (JBool b) k = Inl TypeError"
| "py_index (JInt n) k = Inl TypeError"
| "py_index (JFloat x) k = Inl TypeError"
| "py_index (JStr s) k = Inl TypeError"
| "py_index (JList xs) k = Inl TypeError"

text \<open>
  The pending table's keys are the integers \<^verbatim>\<open>send_mcp_request\<close> allocates. A value
  looked up in it finds the integer key it is equal to in Python's sense, if there is one:
  \<^verbatim>\<open>True == 1\<close>, \<^verbatim>\<open>1.0 == 1\<close>, and a string or \<^verbatim>\<open>None\<close> equals no integer. A list
  or a dict is unhashable and the lookup raises.
\<close>

fun dict_key :: "json \<Rightarrow> exn + int option" where
  "dict_key JNull = Inr None"
| "dict_key (JBool b) = Inr (Some (if b then 1 else 0))"
| "dict_key (JInt n) = Inr (Some n)"
| "dict_key (JFloat x) = Inr (if of_int \<lfloor>x\<rfloor> = x then Some \<lfloor>x\<rfloor> else None)"
| "dict_key (JStr s) = Inr None"
| "dict_key (JList xs) = Inl TypeError"
| "dict_key (JObj kvs) = Inl TypeError"

section \<open>The connection and what surrounds it\<close>

text \<open>
  A future is an object on the heap; the pending table and the suspended caller both hold
  a reference to it. The heap of futures is a list, a reference is an index into it.
\<close>

datatype fut_state = FPending | FResult json | FCancelled

text \<open>
  How a coroutine stands at an await: still suspended, returned with a value, or ended by
  an exception.
\<close>

datatype 'a outcome = Suspended | Returned 'a | Raised exn

datatype task_state = Running | CancelRequested | Finished

datatype agent = AgentExecutor "string list"

datatype log_entry =
    InvalidJson
  | ErrorProcessingMessage exn
  | Disconnected
  | ListenerException exn
  | CleanedUp
  | UnknownRequestId json
  | TimeoutWaiting int
  | ErrorDuringRequest exn
  | ErrorDuringAgent exn
  | ErrorGettingTools json
  | SchemaFailed json exn
  | ErrorDiscovering exn

text \<open>
  \<open>mcp_request_id\<close>, \<open>pending_mcp_requests\<close>, \<open>agent_executor\<close> and \<open>listener_task\<close> are
  the attributes of \<^verbatim>\<open>ConnectionManager\<close>. The rest is what the methods act on: the
  transport (\<open>ws_open\<close>, and \<open>sent\<close>, the values handed to \<^verbatim>\<open>json.dumps\<close> and
  \<^verbatim>\<open>send_text\<close>, oldest first), the heap of futures, the tasks handed to
  \<^verbatim>\<open>asyncio.create_task\<close> with their arguments, the log, and the event loop's clock.
\<close>

record conn =
  mcp_request_id :: int
  pending_mcp_requests :: "int \<rightharpoonup> nat"
  agent_executor :: "agent option"
  listener_task :: "task_state option"
  ws_open :: bool
  sent :: "json list"
  futures :: "fut_state list"
  tasks :: "(json \<times> json) list"
  log :: "log_entry list"
  clock :: nat

text \<open>\<^verbatim>\<open>ConnectionManager.__init__\<close> on a freshly accepted connection.\<close>

definition init :: conn where
  "init = \<lparr> mcp_request_id = 0, pending_mcp_requests = Map.empty, agent_executor = None,
            listener_task = None, ws_open = True, sent = [], futures = [], tasks = [],
            log = [], clock = 0 \<rparr>"

definition logging :: "log_entry \<Rightarrow> conn \<Rightarrow> conn" where
  "logging e s = s\<lparr>log := log s @ [e]\<rparr>"

text \<open>\<^verbatim>\<open>websocket.send_text(json.dumps(frame))\<close>: a closed transport raises.\<close>

definition send_text :: "json \<Rightarrow> conn \<Rightarrow> exn + conn" where
  "send_text frame s = (if ws_open s then Inr (s\<lparr>sent := sent s @ [frame]\<rparr>) else Inl RuntimeError)"

text \<open>The state of a future; a reference always points into the heap.\<close>

definition fut_done :: "conn \<Rightarrow> nat \<Rightarrow> bool" where
  "fut_done s f = (f < length (futures s) \<and> futures s ! f \<noteq> FPending)"

definition set_result :: "nat \<Rightarrow> json \<Rightarrow> conn \<Rightarrow> conn" where
  "set_result f r s = s\<lparr>futures := (futures s)[f := FResult r]\<rparr>"

subsection \<open>handle_mcp_response (lines 64 to 72)\<close>

definition handle_mcp_response :: "json \<Rightarrow> conn \<Rightarrow> exn + conn" where
  "handle_mcp_response mcp_data s =
     (case py_get mcp_data ''id'' JNull of
        Inl e \<Rightarrow> Inl e
      | Inr request_id \<Rightarrow>
          (case dict_key request_id of
             Inl e \<Rightarrow> Inl e
           | Inr None \<Rightarrow> Inr (logging (UnknownRequestId request_id) s)
           | Inr (Some k) \<Rightarrow>
               (case pending_mcp_requests s k of
                  None \<Rightarrow> Inr (logging (UnknownRequestId request_id) s)
                | Some future \<Rightarrow>
                    (let s1 = s\<lparr>pending_mcp_requests := (pending_mcp_requests s)(k := None)\<rparr>
                     in Inr (if \<not> fut_done s1 future then set_result future mcp_data s1 else s1)))))"

subsection \<open>send_mcp_request (lines 74 to 100)\<close>

text \<open>
  The frame of a call suspended in \<^verbatim>\<open>asyncio.wait_for\<close>: its local \<^verbatim>\<open>request_id\<close>
  and \<^verbatim>\<open>future\<close>, and the time at which the 15 unit timeout expires.
\<close>

record caller =
  c_request_id :: int
  c_future :: nat
  c_deadline :: nat

definition mcp_timeout :: nat where
  "mcp_timeout = 15"

definition mcp_request :: "string \<Rightarrow> json \<Rightarrow> int \<Rightarrow> json" where
  "mcp_request method params request_id =
     JObj ([(''jsonrpc'', JStr ''2.0''), (''method'', JStr method), (''id'', JInt request_id)]
           @ (if truthy params then [(''params'', params)] else []))"

text \<open>
  Lines 76 to 91, up to the suspension in \<^verbatim>\<open>wait_for\<close>, and lines 97 to 100 when the
  send raises: the error is logged, the entry popped and the exception raised again.
  \<open>params\<close> is \<open>JNull\<close> for Python's \<^verbatim>\<open>None\<close>.
\<close>

definition send_mcp_request_issue :: "string \<Rightarrow> json \<Rightarrow> conn \<Rightarrow> (exn + caller) \<times> conn" where
  "send_mcp_request_issue method params s =
     (let request_id = mcp_request_id s + 1;
          s1 = s\<lparr>mcp_request_id := request_id\<rparr>;
          future = length (futures s1);
          s2 = s1\<lparr>futures := futures s1 @ [FPending],
                  pending_mcp_requests := (pending_mcp_requests s1)(request_id \<mapsto> future)\<rparr>
      in case send_text (mcp_request method params request_id) s2 of
           Inl e \<Rightarrow>
             (Inl e, (logging (ErrorDuringRequest e) s2)
                       \<lparr>pending_mcp_requests := (pending_mcp_requests s2)(request_id := None)\<rparr>)
         | Inr s3 \<Rightarrow>
             (Inr \<lparr>c_request_id = request_id, c_future = future,
                   c_deadline = clock s3 + mcp_timeout\<rparr>, s3))"

text \<open>
  Lines 92 to 96, when the scheduler looks at the suspended call: a result set on the
  future is returned; past the deadline \<^verbatim>\<open>wait_for\<close> cancels the future and raises
  TimeoutError, which is logged and raised again with the entry left in the table;
  otherwise the call stays suspended. Awaiting a cancelled future raises CancelledError,
  which passes both handlers; only \<^verbatim>\<open>wait_for\<close> cancels a future here, so this is the
  case of a caller that has been given its TimeoutError already.
\<close>

definition send_mcp_request_wait :: "caller \<Rightarrow> conn \<Rightarrow> json outcome \<times> conn" where
  "send_mcp_request_wait c s =
     (if c_future c < length (futures s) then
        (case futures s ! c_future c of
           FResult response \<Rightarrow> (Returned response, s)
         | FCancelled \<Rightarrow> (Raised CancelledError, s)
         | FPending \<Rightarrow>
             (if c_deadline c \<le> clock s
              then (Raised TimeoutError,
                    logging (TimeoutWaiting (c_request_id c))
                      (s\<lparr>futures := (futures s)[c_future c := FCancelled]\<rparr>))
              else (Suspended, s)))
      else (Suspended, s))"

subsection \<open>cleanup (lines 58 to 62) and listen (lines 27 to 52)\<close>

definition cleanup :: "conn \<Rightarrow> conn" where
  "cleanup s =
     logging CleanedUp
       (if listener_task s = Some Running \<or> listener_task s = Some CancelRequested
        then s\<lparr>listener_task := Some CancelRequested\<rparr> else s)"

text \<open>
  What \<^verbatim>\<open>await self.websocket.receive_text()\<close> comes back with: a text, given by what
  \<^verbatim>\<open>json.loads\<close> makes of it (\<open>None\<close> when it raises JSONDecodeError), a
  WebSocketDisconnect, another exception, or the cancellation of the listener task.
\<close>

datatype recv = Text "json option" | Disconnect | ReceiveError exn | Cancelled

datatype loop = Continue | Stop

text \<open>Lines 34 to 40: the classification of a decoded frame.\<close>

definition is_response :: "json \<Rightarrow> exn + bool" where
  "is_response message_data =
     (case py_in ''jsonrpc'' message_data of
        Inl e \<Rightarrow> Inl e
      | Inr False \<Rightarrow> Inr False
      | Inr True \<Rightarrow>
          (case py_in ''method'' message_data of Inl e \<Rightarrow> Inl e | Inr b \<Rightarrow> Inr (\<not> b)))"

definition create_task :: "json \<Rightarrow> json \<Rightarrow> conn \<Rightarrow> conn" where
  "create_task message message_id s = s\<lparr>tasks := tasks s @ [(message, message_id)]\<rparr>"

definition dispatch :: "json \<Rightarrow> conn \<Rightarrow> exn + conn" where
  "dispatch message_data s =
     (case is_response message_data of
        Inl e \<Rightarrow> Inl e
      | Inr True \<Rightarrow> handle_mcp_response message_data s
      | Inr False \<Rightarrow>
          (case py_get message_data ''message'' (JStr []) of
             Inl e \<Rightarrow> Inl e
           | Inr message \<Rightarrow>
               (case py_get message_data ''messageId'' JNull of
                  Inl e \<Rightarrow> Inl e
                | Inr message_id \<Rightarrow>
                    Inr (if truthy message then create_task message message_id s else s))))"

text \<open>
  One turn of the \<^verbatim>\<open>while True\<close> loop. The inner handlers log and go on; the outer
  handlers and the \<^verbatim>\<open>finally\<close> clause end the loop through \<open>cleanup\<close>, after which the
  listener task is done.
\<close>

definition task_done :: "conn \<Rightarrow> conn" where
  "task_done s = (case listener_task s of None \<Rightarrow> s | Some t \<Rightarrow> s\<lparr>listener_task := Some Finished\<rparr>)"

definition listen_step :: "recv \<Rightarrow> conn \<Rightarrow> loop \<times> conn" where
  "listen_step r s =
     (case r of
        Text None \<Rightarrow> (Continue, logging InvalidJson s)
      | Text (Some message_data) \<Rightarrow>
          (case dispatch message_data s of
             Inl e \<Rightarrow> (Continue, logging (ErrorProcessingMessage e) s)
           | Inr s1 \<Rightarrow> (Continue, s1))
      | Disconnect \<Rightarrow> (Stop, task_done (cleanup (logging Disconnected (s\<lparr>ws_open := False\<rparr>))))
      | ReceiveError e \<Rightarrow> (Stop, task_done (cleanup (logging (ListenerException e) s)))
      | Cancelled \<Rightarrow> (Stop, task_done (cleanup s)))"

text \<open>
  The loop over the frames received so far: \<open>Continue\<close> when it is suspended in
  \<^verbatim>\<open>receive_text\<close> waiting for the next one, \<open>Stop\<close> when it has ended.
\<close>

fun listen :: "recv list \<Rightarrow> conn \<Rightarrow> loop \<times> conn" where
  "listen [] s = (Continue, s)"
| "listen (r # rs) s =
     (case listen_step r s of
        (Continue, s1) \<Rightarrow> listen rs s1
      | (Stop, s1) \<Rightarrow> (Stop, s1))"

definition start_listening :: "conn \<Rightarrow> conn" where
  "start_listening s = s\<lparr>listener_task := Some Running\<rparr>"

subsection \<open>process_agent_message (lines 102 to 123)\<close>




subsection \<open>DynamicMCPTool (lines 125 to 153)\<close>

record 'schema tool =
  t_name :: string
  t_description :: string
  t_tool_info :: json
  t_args_schema :: "'schema option"




subsection \<open>discover_and_create_tools (lines 159 to 194)\<close>

text \<open>
  The constructor call of lines 181 to 187: the declared field types are validated
  (\<^verbatim>\<open>name: str\<close>, \<^verbatim>\<open>description: str\<close>, \<^verbatim>\<open>tool_info: dict\<close>).
\<close>

fun DynamicMCPTool :: "json \<Rightarrow> json \<Rightarrow> json \<Rightarrow> 'schema option \<Rightarrow> exn + 'schema tool" where
  "DynamicMCPTool (JStr name) (JStr description) (JObj kvs) args_schema =
     Inr \<lparr>t_name = name, t_description = description, t_tool_info = JObj kvs,
          t_args_schema = args_schema\<rparr>"
| "DynamicMCPTool name description tool_info args_schema = Inl ValidationError"

text \<open>
  Lines 172 to 187 for one descriptor. \<open>jsonschema_to_pydantic\<close> is the schema converter;
  its failure is logged and leaves \<^verbatim>\<open>args_schema\<close> at \<^verbatim>\<open>None\<close>. The log written
  before a later exception stays written, so the state is returned in both cases.
\<close>

definition create_tool ::
  "(json \<Rightarrow> exn + 'schema) \<Rightarrow> json \<Rightarrow> conn \<Rightarrow> (exn + 'schema tool) \<times> conn" where
  "create_tool jsonschema_to_pydantic tool_info s =
     (case py_index tool_info ''name'' of
        Inl e \<Rightarrow> (Inl e, s)
      | Inr tool_name \<Rightarrow>
          (case py_in ''inputSchema'' tool_info of
             Inl e \<Rightarrow> (Inl e, s)
           | Inr has_schema \<Rightarrow>
               (let (args_schema, s1) =
                      (if has_schema then
                         (case py_index tool_info ''inputSchema'' of
                            Inl e \<Rightarrow> (None, logging (SchemaFailed tool_name e) s)
                          | Inr schema \<Rightarrow>
                              (case jsonschema_to_pydantic schema of
                                 Inl e \<Rightarrow> (None, logging (SchemaFailed tool_name e) s)
                               | Inr m \<Rightarrow> (Some m, s)))
                       else (None, s))
                in case py_index tool_info ''description'' of
                     Inl e \<Rightarrow> (Inl e, s1)
                   | Inr description \<Rightarrow>
                       (DynamicMCPTool tool_name description tool_info args_schema, s1))))"

text \<open>The \<^verbatim>\<open>for\<close> loop of lines 171 to 188, with the list built so far.\<close>

fun create_tools ::
  "(json \<Rightarrow> exn + 'schema) \<Rightarrow> json list \<Rightarrow> 'schema tool list \<Rightarrow> conn
     \<Rightarrow> (exn + 'schema tool list) \<times> conn" where
  "create_tools conv [] tools s = (Inr tools, s)"
| "create_tools conv (tool_info # rest) tools s =
     (case create_tool conv tool_info s of
        (Inl e, s1) \<Rightarrow> (Inl e, s1)
      | (Inr tool, s1) \<Rightarrow> create_tools conv rest (tools @ [tool]) s1)"

text \<open>
  What \<^verbatim>\<open>for tool_info in tools_data\<close> iterates over: the elements of a list, the keys
  of a dict, the characters of a string.
\<close>

fun py_iter :: "json \<Rightarrow> exn + json list" where
  "py_iter (JList xs) = Inr xs"
| "py_iter (JObj kvs) = Inr (map (\<lambda>kv. JStr (fst kv)) kvs)"
| "py_iter (JStr cs) = Inr (map (\<lambda>c. JStr [c]) cs)"
| "py_iter JNull = Inl TypeError"
| "py_iter (JBool b) = Inl TypeError"
| "py_iter (JInt n) = Inl TypeError"
| "py_iter (JFloat x) = Inl TypeError"

text \<open>Lines 164 to 190: the body of the \<^verbatim>\<open>try\<close> once the response is there.\<close>

definition tools_of_response ::
  "(json \<Rightarrow> exn + 'schema) \<Rightarrow> json \<Rightarrow> conn \<Rightarrow> (exn + 'schema tool list) \<times> conn" where
  "tools_of_response conv response s =
     (case py_in ''error'' response of
        Inl e \<Rightarrow> (Inl e, s)
      | Inr True \<Rightarrow>
          (case py_index response ''error'' of
             Inl e \<Rightarrow> (Inl e, s)
           | Inr err \<Rightarrow> (Inr [], logging (ErrorGettingTools err) s))
      | Inr False \<Rightarrow>
          (case py_get response ''result'' (JObj []) of
             Inl e \<Rightarrow> (Inl e, s)
           | Inr result \<Rightarrow>
               (case py_get result ''tools'' (JList []) of
                  Inl e \<Rightarrow> (Inl e, s)
                | Inr tools_data \<Rightarrow>
                    (case py_iter tools_data of
                       Inl e \<Rightarrow> (Inl e, s)
                     | Inr infos \<Rightarrow> create_tools conv infos [] s))))"

text \<open>
  Line 162 up to the suspension inside \<^verbatim>\<open>send_mcp_request\<close>; a send that raises is
  caught by the outer handler, which logs and returns the empty list.
\<close>

definition discover_issue :: "conn \<Rightarrow> ('schema tool list + caller) \<times> conn" where
  "discover_issue s =
     (case send_mcp_request_issue ''tools/list'' JNull s of
        (Inl e, s1) \<Rightarrow> (Inl [], logging (ErrorDiscovering e) s1)
      | (Inr c, s1) \<Rightarrow> (Inr c, s1))"

text \<open>Lines 162 to 194, once \<^verbatim>\<open>send_mcp_request\<close> has returned or raised.\<close>

definition discover_resume ::
  "(json \<Rightarrow> exn + 'schema) \<Rightarrow> exn + json \<Rightarrow> conn \<Rightarrow> 'schema tool list \<times> conn" where
  "discover_resume conv awaited s =
     (case awaited of
        Inl e \<Rightarrow> ([], logging (ErrorDiscovering e) s)
      | Inr response \<Rightarrow>
          (case tools_of_response conv response s of
             (Inl e, s1) \<Rightarrow> ([], logging (ErrorDiscovering e) s1)
           | (Inr tools, s1) \<Rightarrow> (tools, s1)))"

section \<open>The connection at work: interleaved calls, frames and timeouts\<close>

text \<open>
  The event loop runs one coroutine at a time, from one await to the next. A run of the
  connection is a sequence of such turns: a task calls \<^verbatim>\<open>send_mcp_request\<close> and
  suspends, the listener takes one frame off the transport, the scheduler looks at a
  suspended call, or time passes. The calls made so far are kept with their outcomes, in
  the order in which they were made.
\<close>

datatype event = Issue string json | Receive recv | Wake nat | Tick

type_synonym call = "caller \<times> json outcome"

fun step :: "event \<Rightarrow> conn \<times> call list \<Rightarrow> conn \<times> call list" where
  "step (Issue method params) (s, cs) =
     (case send_mcp_request_issue method params s of
        (Inl e, s1) \<Rightarrow> (s1, cs)
      | (Inr c, s1) \<Rightarrow> (s1, cs @ [(c, Suspended)]))"
| "step (Receive r) (s, cs) =
     (if listener_task s = Some Running then (snd (listen_step r s), cs) else (s, cs))"
| "step (Wake i) (s, cs) =
     (if i < length cs then
        (case cs ! i of
           (c, Suspended) \<Rightarrow>
             (case send_mcp_request_wait c s of (out, s1) \<Rightarrow> (s1, cs[i := (c, out)]))
         | (c, Returned r) \<Rightarrow> (s, cs)
         | (c, Raised e) \<Rightarrow> (s, cs))
      else (s, cs))"
| "step Tick (s, cs) = (s\<lparr>clock := clock s + 1\<rparr>, cs)"

fun run :: "event list \<Rightarrow> conn \<times> call list \<Rightarrow> conn \<times> call list" where
  "run [] st = st"
| "run (e # es) st = run es (step e st)"

text \<open>A connection accepted and listening, before any request (lines 212 to 216).\<close>

definition accepted :: "conn \<times> call list" where
  "accepted = (start_listening init, [])"

text \<open>The value a reply is looked up under: its \<^verbatim>\<open>id\<close>, as a key of the pending table.\<close>

definition reply_key :: "json \<Rightarrow> int option" where
  "reply_key r =
     (case py_get r ''id'' JNull of
        Inl e \<Rightarrow> None
      | Inr v \<Rightarrow> (case dict_key v of Inl e \<Rightarrow> None | Inr k \<Rightarrow> k))"

section \<open>What ties a call to its reply\<close>

text \<open>
  The state of one call against the connection: while its future is pending the table
  still holds the entry and the call is suspended; a result on the future carries the
  call's own id and is what the call returns; a cancelled future belongs to a call that
  was given its TimeoutError.
\<close>

definition call_ok :: "conn \<Rightarrow> call \<Rightarrow> bool" where
  "call_ok s co =
     (case futures s ! c_future (fst co) of
        FPending \<Rightarrow> pending_mcp_requests s (c_request_id (fst co)) = Some (c_future (fst co))
                    \<and> snd co = Suspended
      | FResult r \<Rightarrow> reply_key r = Some (c_request_id (fst co))
                    \<and> (snd co = Suspended \<or> snd co = Returned r)
      | FCancelled \<Rightarrow> snd co = Raised TimeoutError)"

text \<open>
  The invariant of a connection at work: the ids handed out increase strictly and stay
  within the counter, no two calls share a future, every table entry belongs to the call
  that made it, and every call stands as \<open>call_ok\<close> says.
\<close>

definition correlated :: "conn \<times> call list \<Rightarrow> bool" where
  "correlated st =
     (0 \<le> mcp_request_id (fst st) \<and>
      sorted_wrt (<) (map (c_request_id \<circ> fst) (snd st)) \<and>
      distinct (map (c_future \<circ> fst) (snd st)) \<and>
      (\<forall>co \<in> set (snd st). 0 < c_request_id (fst co) \<and> c_request_id (fst co) \<le> mcp_request_id (fst st)
           \<and> c_future (fst co) < length (futures (fst st))) \<and>
      (\<forall>k f. pending_mcp_requests (fst st) k = Some f \<longrightarrow>
           (\<exists>co \<in> set (snd st). c_request_id (fst co) = k \<and> c_future (fst co) = f)) \<and>
      (\<forall>co \<in> set (snd st). call_ok (fst st) co))"

section \<open>Example frames and runs\<close>

definition example_reply :: "int \<Rightarrow> json" where
  "example_reply n = JObj [(''jsonrpc'', JStr ''2.0''), (''id'', JInt n), (''result'', JStr ''ok'')]"

definition two_issues :: "event list" where
  "two_issues = [Issue ''tools/list'' JNull, Issue ''tools/call'' (JObj [(''name'', JStr ''fill'')])]"



definition ping_frame :: json where
  "ping_frame = JObj [(''jsonrpc'', JStr ''2.0''), (''method'', JStr ''ping''), (''messageId'', JStr ''7'')]"

section \<open>Replies that match no pending request\<close>

text \<open>
  A reply matches no pending request when its \<^verbatim>\<open>id\<close> is equal to no key of the
  table: the key is absent, the id is no number, or the lookup itself raises. What the
  listener logs for it: the warning of \<^verbatim>\<open>handle_mcp_response\<close> when the lookup goes
  through, the error of the loop's inner handler when it raises.
\<close>

definition unmatched :: "conn \<Rightarrow> json \<Rightarrow> bool" where
  "unmatched s m = (case reply_key m of None \<Rightarrow> True | Some k \<Rightarrow> pending_mcp_requests s k = None)"

definition unmatched_log :: "json \<Rightarrow> log_entry" where
  "unmatched_log m =
     (case py_get m ''id'' JNull of
        Inl e \<Rightarrow> ErrorProcessingMessage e
      | Inr v \<Rightarrow> (case dict_key v of Inl e \<Rightarrow> ErrorProcessingMessage e | Inr k \<Rightarrow> UnknownRequestId v))"

subsection \<open>Example runs: teardown and timeout\<close>

definition teardown_run :: "event list" where
  "teardown_run = [Issue ''tools/list'' JNull, Receive Disconnect, Wake 0]"

definition timeout_run :: "event list" where
  "timeout_run =
     [Issue ''tools/list'' JNull,
      Tick, Tick, Tick, Tick, Tick, Tick, Tick, Tick, Tick, Tick, Tick, Tick, Tick, Tick,
      Wake 0, Tick, Wake 0]"

definition late_reply_run :: "event list" where
  "late_reply_run = timeout_run @ [Receive (Text (Some (example_reply 1))), Wake 0]"

section \<open>Descriptors and the proxies they stand for\<close>

text \<open>
  A descriptor is well formed when it is an object whose \<^verbatim>\<open>name\<close> and
  \<^verbatim>\<open>description\<close> are strings; \<open>descriptor_fields\<close> reads them, with the
  \<^verbatim>\<open>inputSchema\<close> when there is one. \<open>proxy\<close> is the tool expected for such a
  descriptor: its schema converted, or none when there is no schema or the conversion
  fails. \<open>schema_failure\<close> is the log entry expected for a failed conversion. These
  three state the properties of discovery; the code is \<open>create_tool\<close> above.
\<close>

definition descriptor_fields :: "json \<Rightarrow> (string \<times> string \<times> json option) option" where
  "descriptor_fields d =
     (case d of
        JObj kvs \<Rightarrow>
          (case (map_of kvs ''name'', map_of kvs ''description'') of
             (Some (JStr name), Some (JStr description)) \<Rightarrow>
               Some (name, description, map_of kvs ''inputSchema'')
           | _ \<Rightarrow> None)
      | _ \<Rightarrow> None)"

definition converted :: "(json \<Rightarrow> exn + 'schema) \<Rightarrow> json option \<Rightarrow> 'schema option" where
  "converted conv schema =
     (case schema of
        None \<Rightarrow> None
      | Some j \<Rightarrow> (case conv j of Inl e \<Rightarrow> None | Inr m \<Rightarrow> Some m))"

definition proxy :: "(json \<Rightarrow> exn + 'schema) \<Rightarrow> json \<Rightarrow> 'schema tool option" where
  "proxy conv d =
     (case descriptor_fields d of
        None \<Rightarrow> None
      | Some (name, description, schema) \<Rightarrow>
          Some \<lparr>t_name = name, t_description = description, t_tool_info = d,
                t_args_schema = converted conv schema\<rparr>)"

definition schema_failure :: "(json \<Rightarrow> exn + 'schema) \<Rightarrow> json \<Rightarrow> log_entry list" where
  "schema_failure conv d =
     (case descriptor_fields d of
        Some (name, description, Some j) \<Rightarrow>
          (case conv j of Inl e \<Rightarrow> [SchemaFailed (JStr name) e] | Inr m \<Rightarrow> [])
      | _ \<Rightarrow> [])"

subsection \<open>Example tools, descriptors and replies\<close>



definition fill_descriptor :: json where
  "fill_descriptor = JObj [(''name'', JStr ''fill''), (''description'', JStr ''Fill a field''),
                           (''inputSchema'', JObj [(''type'', JStr ''object'')])]"

definition click_descriptor :: json where
  "click_descriptor = JObj [(''name'', JStr ''click''), (''description'', JStr ''Click a button''),
                            (''inputSchema'', JStr ''broken'')]"

definition capabilities_reply :: json where
  "capabilities_reply =
     JObj [(''jsonrpc'', JStr ''2.0''), (''id'', JInt 1),
           (''result'', JObj [(''capabilities'', JList [fill_descriptor])])]"

definition tools_reply :: json where
  "tools_reply =
     JObj [(''jsonrpc'', JStr ''2.0''), (''id'', JInt 1),
           (''result'', JObj [(''tools'', JList [click_descriptor, fill_descriptor])])]"

text \<open>A converter for the examples: it accepts an object as a schema and nothing else.\<close>

fun objects_only :: "json \<Rightarrow> exn + unit" where
  "objects_only (JObj kvs) = Inr ()"
| "objects_only j = Inl (External ''not a schema'')"

subsection \<open>Example work items\<close>



section \<open>Properties of the correlation\<close>

lemma handle_effect:
  assumes "handle_mcp_response r s = Inr s'"
  shows "mcp_request_id s' = mcp_request_id s \<and> listener_task s' = listener_task s \<and>
         ((pending_mcp_requests s' = pending_mcp_requests s \<and> futures s' = futures s) \<or>
          (\<exists>k f. reply_key r = Some k \<and> pending_mcp_requests s k = Some f \<and>
                 pending_mcp_requests s' = (pending_mcp_requests s)(k := None) \<and>
                 futures s' = (if fut_done s f then futures s else (futures s)[f := FResult r])))"
  using assms
  by (auto simp: handle_mcp_response_def reply_key_def logging_def set_result_def fut_done_def Let_def
      split: sum.splits option.splits if_splits)

lemma dispatch_effect:
  assumes "dispatch m s = Inr s'"
  shows "mcp_request_id s' = mcp_request_id s \<and>
         ((pending_mcp_requests s' = pending_mcp_requests s \<and> futures s' = futures s) \<or>
          (\<exists>k f. reply_key m = Some k \<and> pending_mcp_requests s k = Some f \<and>
                 pending_mcp_requests s' = (pending_mcp_requests s)(k := None) \<and>
                 futures s' = (if fut_done s f then futures s else (futures s)[f := FResult m])))"
proof (cases "is_response m")
  case (Inl e)
  with assms show ?thesis by (simp add: dispatch_def)
next
  case (Inr b)
  show ?thesis
  proof (cases b)
    case True
    with Inr assms have "handle_mcp_response m s = Inr s'" by (simp add: dispatch_def)
    from handle_effect[OF this] show ?thesis by blast
  next
    case False
    with Inr assms show ?thesis
      by (auto simp: dispatch_def create_task_def split: sum.splits if_splits)
  qed
qed

lemma listen_step_effect:
  assumes "listen_step rc s = (l, s')"
  shows "mcp_request_id s' = mcp_request_id s \<and>
         ((pending_mcp_requests s' = pending_mcp_requests s \<and> futures s' = futures s) \<or>
          (\<exists>k f r. rc = Text (Some r) \<and> reply_key r = Some k \<and> pending_mcp_requests s k = Some f \<and>
                 pending_mcp_requests s' = (pending_mcp_requests s)(k := None) \<and>
                 futures s' = (if fut_done s f then futures s else (futures s)[f := FResult r])))"
proof (cases rc)
  case (Text d)
  show ?thesis
  proof (cases d)
    case None
    with Text assms show ?thesis by (auto simp: listen_step_def logging_def)
  next
    case (Some m)
    show ?thesis
    proof (cases "dispatch m s")
      case (Inl e)
      with Text Some assms show ?thesis by (auto simp: listen_step_def logging_def)
    next
      case (Inr s1)
      with Text Some assms have "dispatch m s = Inr s'" by (auto simp: listen_step_def)
      from dispatch_effect[OF this] Text Some show ?thesis by blast
    qed
  qed
next
  case Disconnect
  with assms show ?thesis
    by (auto simp: listen_step_def logging_def cleanup_def task_done_def split: option.splits)
next
  case (ReceiveError e)
  with assms show ?thesis
    by (auto simp: listen_step_def logging_def cleanup_def task_done_def split: option.splits)
next
  case Cancelled
  with assms show ?thesis
    by (auto simp: listen_step_def logging_def cleanup_def task_done_def split: option.splits)
qed

text \<open>A state change that touches neither the counter, the table nor the futures.\<close>

lemma correlated_frame:
  assumes "correlated (s, cs)"
    and "mcp_request_id s' = mcp_request_id s"
    and "pending_mcp_requests s' = pending_mcp_requests s"
    and "futures s' = futures s"
  shows "correlated (s', cs)"
  using assms by (simp add: correlated_def call_ok_def cong: fut_state.case_cong)

lemma correlated_resolve:
  assumes inv: "correlated (s, cs)"
    and m': "mcp_request_id s' = mcp_request_id s"
    and rk: "reply_key r = Some k"
    and pk: "pending_mcp_requests s k = Some f"
    and p': "pending_mcp_requests s' = (pending_mcp_requests s)(k := None)"
    and f': "futures s' = (if fut_done s f then futures s else (futures s)[f := FResult r])"
  shows "correlated (s', cs)"
proof -
  from inv pk have "\<exists>co \<in> set cs. c_request_id (fst co) = k \<and> c_future (fst co) = f"
    unfolding correlated_def by simp
  then obtain c0 where c0: "c0 \<in> set cs" "c_request_id (fst c0) = k" "c_future (fst c0) = f"
    by blast
  from inv c0 have flen: "f < length (futures s)" unfolding correlated_def by auto
  have same_fut: "\<And>co. co \<in> set cs \<Longrightarrow> c_future (fst co) = f \<Longrightarrow> co = c0"
  proof -
    fix co assume "co \<in> set cs" "c_future (fst co) = f"
    with c0 inv show "co = c0"
      unfolding correlated_def by (auto simp: distinct_map inj_on_def)
  qed
  have len: "length (futures s') = length (futures s)" using f' by simp
  have ok: "call_ok s' co" if co: "co \<in> set cs" for co
  proof -
    from inv co have old: "call_ok s co" and lt: "c_future (fst co) < length (futures s)"
      unfolding correlated_def by auto
    show ?thesis
    proof (cases "c_future (fst co) = f")
      case True
      then have eq: "co = c0" using same_fut co by simp
      show ?thesis
      proof (cases "fut_done s f")
        case True
        with f' have fs: "futures s' = futures s" by simp
        from True have "futures s ! f \<noteq> FPending" by (simp add: fut_done_def)
        with old eq c0 fs show ?thesis
          by (auto simp: call_ok_def split: fut_state.splits)
      next
        case False
        with flen have pend: "futures s ! f = FPending" by (simp add: fut_done_def)
        from False f' flen have "futures s' ! f = FResult r" by simp
        with old eq c0 pend rk show ?thesis
          by (auto simp: call_ok_def)
      qed
    next
      case False
      then have nth: "futures s' ! c_future (fst co) = futures s ! c_future (fst co)"
        using f' by (auto)
      show ?thesis
      proof (cases "futures s ! c_future (fst co)")
        case FPending
        with old have pc: "pending_mcp_requests s (c_request_id (fst co)) = Some (c_future (fst co))"
          and sc: "snd co = Suspended"
          by (auto simp: call_ok_def)
        from pc pk False have "c_request_id (fst co) \<noteq> k" by auto
        with pc sc nth FPending p' show ?thesis by (simp add: call_ok_def)
      next
        case (FResult x)
        with old nth show ?thesis by (simp add: call_ok_def)
      next
        case FCancelled
        with old nth show ?thesis by (simp add: call_ok_def)
      qed
    qed
  qed
  have tab: "\<exists>co \<in> set cs. c_request_id (fst co) = k' \<and> c_future (fst co) = f'"
    if "pending_mcp_requests s' k' = Some f'" for k' f'
  proof -
    from that p' have "pending_mcp_requests s k' = Some f'" by (auto split: if_splits)
    with inv show ?thesis by (simp add: correlated_def)
  qed
  from inv m' len ok tab show ?thesis
    unfolding correlated_def by (simp)
qed

lemma correlated_receive:
  assumes inv: "correlated (s, cs)"
  shows "correlated (step (Receive rc) (s, cs))"
proof (cases "listener_task s = Some Running")
  case False
  with inv show ?thesis by simp
next
  case True
  obtain l s' where ls: "listen_step rc s = (l, s')" by (cases "listen_step rc s")
  with True have st: "step (Receive rc) (s, cs) = (s', cs)" by simp
  from listen_step_effect[OF ls] have m': "mcp_request_id s' = mcp_request_id s"
    and alt: "(pending_mcp_requests s' = pending_mcp_requests s \<and> futures s' = futures s) \<or>
          (\<exists>k f r. rc = Text (Some r) \<and> reply_key r = Some k \<and> pending_mcp_requests s k = Some f \<and>
                 pending_mcp_requests s' = (pending_mcp_requests s)(k := None) \<and>
                 futures s' = (if fut_done s f then futures s else (futures s)[f := FResult r]))"
    by blast+
  from alt show ?thesis
  proof
    assume "pending_mcp_requests s' = pending_mcp_requests s \<and> futures s' = futures s"
    with correlated_frame[OF inv m'] st show ?thesis by simp
  next
    assume "\<exists>k f r. rc = Text (Some r) \<and> reply_key r = Some k \<and> pending_mcp_requests s k = Some f \<and>
                 pending_mcp_requests s' = (pending_mcp_requests s)(k := None) \<and>
                 futures s' = (if fut_done s f then futures s else (futures s)[f := FResult r])"
    then obtain k f r where "reply_key r = Some k" "pending_mcp_requests s k = Some f"
      "pending_mcp_requests s' = (pending_mcp_requests s)(k := None)"
      "futures s' = (if fut_done s f then futures s else (futures s)[f := FResult r])"
      by blast
    from correlated_resolve[OF inv m' this] st show ?thesis by simp
  qed
qed

lemma correlated_tick: "correlated (s, cs) \<Longrightarrow> correlated (step Tick (s, cs))"
  by (simp add: correlated_def call_ok_def cong: fut_state.case_cong)


lemma issue_effect:
  "send_mcp_request_issue m p s = (res, s') \<Longrightarrow>
     mcp_request_id s' = mcp_request_id s + 1 \<and>
     futures s' = futures s @ [FPending] \<and>
     listener_task s' = listener_task s \<and>
     (case res of
        Inl e \<Rightarrow> pending_mcp_requests s' = (pending_mcp_requests s)(mcp_request_id s + 1 := None)
      | Inr c \<Rightarrow> pending_mcp_requests s' = (pending_mcp_requests s)(mcp_request_id s + 1 \<mapsto> length (futures s))
                 \<and> c_request_id c = mcp_request_id s + 1 \<and> c_future c = length (futures s))"
  by (auto simp: send_mcp_request_issue_def send_text_def logging_def Let_def split: if_splits)

lemma correlated_issue:
  assumes inv: "correlated (s, cs)"
  shows "correlated (step (Issue m p) (s, cs))"
proof -
  obtain res s' where eq: "send_mcp_request_issue m p s = (res, s')"
    by (cases "send_mcp_request_issue m p s")
  from issue_effect[OF eq] have m': "mcp_request_id s' = mcp_request_id s + 1"
    and f': "futures s' = futures s @ [FPending]"
    and res: "case res of
        Inl e \<Rightarrow> pending_mcp_requests s' = (pending_mcp_requests s)(mcp_request_id s + 1 := None)
      | Inr c \<Rightarrow> pending_mcp_requests s' = (pending_mcp_requests s)(mcp_request_id s + 1 \<mapsto> length (futures s))
                 \<and> c_request_id c = mcp_request_id s + 1 \<and> c_future c = length (futures s)"
    by blast+
  from inv have bound: "\<And>co. co \<in> set cs \<Longrightarrow>
      0 < c_request_id (fst co) \<and> c_request_id (fst co) \<le> mcp_request_id s
        \<and> c_future (fst co) < length (futures s)"
    by (simp add: correlated_def)
  from inv have nonneg: "0 \<le> mcp_request_id s" by (simp add: correlated_def)
  from inv have tab: "\<And>k f. pending_mcp_requests s k = Some f \<Longrightarrow>
      \<exists>co \<in> set cs. c_request_id (fst co) = k \<and> c_future (fst co) = f"
    by (simp add: correlated_def)
  from inv have oks: "\<And>co. co \<in> set cs \<Longrightarrow> call_ok s co" by (simp add: correlated_def)
  have old_ok: "call_ok s' co" if co: "co \<in> set cs"
    and p': "\<And>k. k \<noteq> mcp_request_id s + 1 \<Longrightarrow> pending_mcp_requests s' k = pending_mcp_requests s k"
    for co
  proof -
    from bound[OF co] have nth: "futures s' ! c_future (fst co) = futures s ! c_future (fst co)"
      and ne: "c_request_id (fst co) \<noteq> mcp_request_id s + 1"
      by (auto simp: f' nth_append)
    from oks[OF co] nth p'[OF ne] show ?thesis
      by (simp add: call_ok_def cong: fut_state.case_cong)
  qed
  show ?thesis
  proof (cases res)
    case (Inl e)
    with res have p': "pending_mcp_requests s' = (pending_mcp_requests s)(mcp_request_id s + 1 := None)"
      by simp
    from eq Inl have st: "step (Issue m p) (s, cs) = (s', cs)" by simp
    have 4: "\<exists>co \<in> set cs. c_request_id (fst co) = k \<and> c_future (fst co) = f"
      if "pending_mcp_requests s' k = Some f" for k f
    proof -
      from that p' have "pending_mcp_requests s k = Some f" by (auto split: if_splits)
      then show ?thesis by (rule tab)
    qed
    have 5: "call_ok s' co" if "co \<in> set cs" for co
      using that p' by (intro old_ok) auto
    have 3: "0 < c_request_id (fst co) \<and> c_request_id (fst co) \<le> mcp_request_id s'
             \<and> c_future (fst co) < length (futures s')" if "co \<in> set cs" for co
      using bound[OF that] m' f' by simp
    have 0: "0 \<le> mcp_request_id s'" using nonneg m' by simp
    from inv have 1: "sorted_wrt (<) (map (c_request_id \<circ> fst) cs)"
      and 2: "distinct (map (c_future \<circ> fst) cs)" by (simp_all add: correlated_def)
    from 0 1 2 3 4 5 show ?thesis
      unfolding st correlated_def by simp
  next
    case (Inr c)
    with res have c: "c_request_id c = mcp_request_id s + 1" "c_future c = length (futures s)"
      and p': "pending_mcp_requests s' = (pending_mcp_requests s)(mcp_request_id s + 1 \<mapsto> length (futures s))"
      by auto
    have st: "step (Issue m p) (s, cs) = (s', cs @ [(c, Suspended)])"
      using eq Inr by simp
    have 1: "sorted_wrt (<) (map (c_request_id \<circ> fst) (cs @ [(c, Suspended)]))"
      using inv bound c by (fastforce simp: correlated_def sorted_wrt_append)
    have 2: "distinct (map (c_future \<circ> fst) (cs @ [(c, Suspended)]))"
      using inv bound c by (fastforce simp: correlated_def)
    have 3: "0 < c_request_id (fst co) \<and> c_request_id (fst co) \<le> mcp_request_id s'
             \<and> c_future (fst co) < length (futures s')"
      if "co \<in> set (cs @ [(c, Suspended)])" for co
    proof (cases "co \<in> set cs")
      case True
      from bound[OF True] m' f' show ?thesis by simp
    next
      case False
      with that have "co = (c, Suspended)" by simp
      with c m' f' nonneg show ?thesis by simp
    qed
    have 4: "\<exists>co \<in> set (cs @ [(c, Suspended)]). c_request_id (fst co) = k \<and> c_future (fst co) = f"
      if pk: "pending_mcp_requests s' k = Some f" for k f
    proof (cases "k = mcp_request_id s + 1")
      case True
      with pk p' c show ?thesis by auto
    next
      case False
      with pk p' have "pending_mcp_requests s k = Some f" by simp
      from tab[OF this] show ?thesis by auto
    qed
    have 5: "call_ok s' co" if "co \<in> set (cs @ [(c, Suspended)])" for co
    proof (cases "co \<in> set cs")
      case True
      then show ?thesis using p' by (intro old_ok) auto
    next
      case False
      with that have "co = (c, Suspended)" by simp
      then show ?thesis by (simp add: call_ok_def c f' p')
    qed
    have 0: "0 \<le> mcp_request_id s'" using nonneg m' by simp
    from 0 1 2 3 4 5 show ?thesis unfolding st correlated_def by simp
  qed
qed

lemma wait_effect:
  assumes "send_mcp_request_wait c s = (out, s1)"
  shows "mcp_request_id s1 = mcp_request_id s \<and> pending_mcp_requests s1 = pending_mcp_requests s \<and>
         listener_task s1 = listener_task s \<and>
         ((out = Suspended \<and> s1 = s) \<or>
          (\<exists>r. out = Returned r \<and> s1 = s \<and> c_future c < length (futures s)
               \<and> futures s ! c_future c = FResult r) \<or>
          (out = Raised CancelledError \<and> s1 = s \<and> c_future c < length (futures s)
               \<and> futures s ! c_future c = FCancelled) \<or>
          (out = Raised TimeoutError \<and> c_future c < length (futures s)
               \<and> futures s ! c_future c = FPending \<and> c_deadline c \<le> clock s
               \<and> futures s1 = (futures s)[c_future c := FCancelled]))"
  using assms
  by (auto simp: send_mcp_request_wait_def logging_def split: if_splits fut_state.splits)

lemma correlated_wake:
  assumes inv: "correlated (s, cs)"
  shows "correlated (step (Wake i) (s, cs))"
proof (cases "i < length cs \<and> snd (cs ! i) = Suspended")
  case False
  then have "step (Wake i) (s, cs) = (s, cs)"
    by (cases "cs ! i"; cases "snd (cs ! i)") auto
  with inv show ?thesis by simp
next
  case True
  then obtain c where ci: "cs ! i = (c, Suspended)" and i: "i < length cs"
    by (cases "cs ! i") auto
  obtain out s1 where w: "send_mcp_request_wait c s = (out, s1)"
    by (cases "send_mcp_request_wait c s")
  from i ci w have st: "step (Wake i) (s, cs) = (s1, cs[i := (c, out)])" by simp
  from i ci have mem: "(c, Suspended) \<in> set cs" by (metis nth_mem)
  have fsts: "map fst (cs[i := (c, out)]) = map fst cs"
    using i ci by (simp add: map_update) (metis fst_conv list_update_id map_update)
  from wait_effect[OF w] have m1: "mcp_request_id s1 = mcp_request_id s"
    and p1: "pending_mcp_requests s1 = pending_mcp_requests s"
    and alt: "(out = Suspended \<and> s1 = s) \<or>
          (\<exists>r. out = Returned r \<and> s1 = s \<and> c_future c < length (futures s)
               \<and> futures s ! c_future c = FResult r) \<or>
          (out = Raised CancelledError \<and> s1 = s \<and> c_future c < length (futures s)
               \<and> futures s ! c_future c = FCancelled) \<or>
          (out = Raised TimeoutError \<and> c_future c < length (futures s)
               \<and> futures s ! c_future c = FPending \<and> c_deadline c \<le> clock s
               \<and> futures s1 = (futures s)[c_future c := FCancelled])"
    by blast+
  from alt have len: "length (futures s1) = length (futures s)" by auto
  from inv have dist: "distinct (map (c_future \<circ> fst) cs)" by (simp add: correlated_def)
  from inv have oks: "\<And>co. co \<in> set cs \<Longrightarrow> call_ok s co" by (simp add: correlated_def)
  have other: "futures s1 ! c_future (fst (cs ! j)) = futures s ! c_future (fst (cs ! j))"
    if j: "j < length cs" "j \<noteq> i" for j
  proof -
    from dist i j have "(map (c_future \<circ> fst) cs) ! j \<noteq> (map (c_future \<circ> fst) cs) ! i"
      by (simp add: nth_eq_iff_index_eq del: nth_map)
    with i j ci have "c_future (fst (cs ! j)) \<noteq> c_future c" by simp
    with alt show ?thesis by auto
  qed
  have ok: "call_ok s1 co" if "co \<in> set (cs[i := (c, out)])" for co
  proof -
    from that obtain j where j: "j < length cs" "co = cs[i := (c, out)] ! j"
      by (auto simp: in_set_conv_nth)
    show ?thesis
    proof (cases "j = i")
      case True
      with j i have co: "co = (c, out)" by simp
      from oks[OF mem] alt show ?thesis
        unfolding co by (auto simp: call_ok_def split: fut_state.splits)
    next
      case False
      with j have co: "co = cs ! j" by simp
      from j have "cs ! j \<in> set cs" by simp
      from oks[OF this] other[OF j(1) False] p1 show ?thesis
        unfolding co by (simp add: call_ok_def cong: fut_state.case_cong)
    qed
  qed
  have maps: "map (c_request_id \<circ> fst) (cs[i := (c, out)]) = map (c_request_id \<circ> fst) cs"
    "map (c_future \<circ> fst) (cs[i := (c, out)]) = map (c_future \<circ> fst) cs"
    using fsts by (metis map_map)+
  have sets: "fst ` set (cs[i := (c, out)]) = fst ` set cs"
    using fsts by (metis set_map)
  have 3: "0 < c_request_id (fst co) \<and> c_request_id (fst co) \<le> mcp_request_id s1
             \<and> c_future (fst co) < length (futures s1)"
    if "co \<in> set (cs[i := (c, out)])" for co
  proof -
    from that sets have "fst co \<in> fst ` set cs" by blast
    then obtain co' where "co' \<in> set cs" "fst co' = fst co" by auto
    with inv m1 len show ?thesis by (auto simp: correlated_def)
  qed
  have 4: "\<exists>co \<in> set (cs[i := (c, out)]). c_request_id (fst co) = k \<and> c_future (fst co) = f"
    if "pending_mcp_requests s1 k = Some f" for k f
  proof -
    from that p1 inv have "\<exists>co \<in> set cs. c_request_id (fst co) = k \<and> c_future (fst co) = f"
      by (simp add: correlated_def)
    then obtain co where "co \<in> set cs" "c_request_id (fst co) = k" "c_future (fst co) = f"
      by blast
    then have "fst co \<in> fst ` set (cs[i := (c, out)])" using sets by blast
    then obtain co' where "co' \<in> set (cs[i := (c, out)])" "fst co' = fst co" by auto
    with \<open>c_request_id (fst co) = k\<close> \<open>c_future (fst co) = f\<close> show ?thesis
      by (intro bexI[of _ co']) simp_all
  qed
  from inv m1 maps 3 4 ok show ?thesis
    unfolding st correlated_def by simp
qed

lemma correlated_step: "correlated st \<Longrightarrow> correlated (step e st)"
  by (cases st; cases e) (simp_all only: correlated_issue correlated_receive correlated_wake correlated_tick)

lemma correlated_run: "correlated st \<Longrightarrow> correlated (run es st)"
  by (induction es arbitrary: st) (simp_all add: correlated_step)

lemma correlated_accepted: "correlated accepted"
  by (simp add: correlated_def accepted_def start_listening_def init_def)

lemma run_append: "run (es @ es') st = run es' (run es st)"
  by (induction es arbitrary: st) simp_all

lemma result_stable_step:
  assumes f: "f < length (futures s)" "futures s ! f = FResult r"
    and st: "step e (s, cs) = (s', cs')"
  shows "f < length (futures s') \<and> futures s' ! f = FResult r"
proof (cases e)
  case (Issue m p)
  obtain res s1 where eq: "send_mcp_request_issue m p s = (res, s1)"
    by (cases "send_mcp_request_issue m p s")
  from issue_effect[OF eq] have "futures s1 = futures s @ [FPending]" by blast
  moreover from st Issue eq have "s' = s1" by (auto split: sum.splits)
  ultimately show ?thesis using f by (simp add: nth_append)
next
  case (Receive rc)
  show ?thesis
  proof (cases "listener_task s = Some Running")
    case False
    with st Receive f show ?thesis by simp
  next
    case True
    obtain l s1 where ls: "listen_step rc s = (l, s1)" by (cases "listen_step rc s")
    with st Receive True have s': "s' = s1" by simp
    from listen_step_effect[OF ls] f show ?thesis
      unfolding s' by (auto simp: fut_done_def) (metis fut_state.distinct(1) nth_list_update_neq)
  qed
next
  case (Wake i)
  show ?thesis
  proof (cases "i < length cs \<and> snd (cs ! i) = Suspended")
    case False
    then have "step (Wake i) (s, cs) = (s, cs)"
      by (cases "cs ! i"; cases "snd (cs ! i)") auto
    with st Wake f show ?thesis by simp
  next
    case True
    then obtain c where ci: "cs ! i = (c, Suspended)" and i: "i < length cs"
      by (cases "cs ! i") auto
    obtain out s1 where w: "send_mcp_request_wait c s = (out, s1)"
      by (cases "send_mcp_request_wait c s")
    from i ci w st Wake have s': "s' = s1" by simp
    from wait_effect[OF w] f show ?thesis
      unfolding s' by (auto simp: nth_list_update)
  qed
next
  case Tick
  with st f show ?thesis by auto
qed

lemma calls_prefix_step:
  assumes st: "step e (s, cs) = (s', cs')" and i: "i < length cs"
  shows "i < length cs' \<and> fst (cs' ! i) = fst (cs ! i)"
proof (cases e)
  case (Issue m p)
  with st i show ?thesis
    by (auto simp: nth_append split: prod.splits sum.splits)
next
  case (Receive rc)
  with st i show ?thesis by (auto split: if_splits)
next
  case (Wake j)
  with st i show ?thesis
    by (auto simp: nth_list_update split: if_splits prod.splits outcome.splits)
next
  case Tick
  with st i show ?thesis by auto
qed

lemma result_stable_run:
  "f < length (futures s) \<Longrightarrow> futures s ! f = FResult r \<Longrightarrow> i < length cs \<Longrightarrow>
   run es (s, cs) = (s', cs') \<Longrightarrow>
   f < length (futures s') \<and> futures s' ! f = FResult r \<and> i < length cs' \<and> fst (cs' ! i) = fst (cs ! i)"
proof (induction es arbitrary: s cs)
  case Nil
  then show ?case by simp
next
  case (Cons e es)
  obtain s1 cs1 where st: "step e (s, cs) = (s1, cs1)" by (cases "step e (s, cs)")
  from result_stable_step[OF Cons.prems(1,2) st] calls_prefix_step[OF st Cons.prems(3)]
  have a: "f < length (futures s1)" "futures s1 ! f = FResult r" "i < length cs1"
    "fst (cs1 ! i) = fst (cs ! i)" by blast+
  from Cons.prems(4) st have "run es (s1, cs1) = (s', cs')" by simp
  from Cons.IH[OF a(1,2,3) this] a(4) show ?case by simp
qed

lemma handle_resolves:
  assumes "reply_key r = Some k" "pending_mcp_requests s k = Some f"
  shows "handle_mcp_response r s =
           Inr (if fut_done (s\<lparr>pending_mcp_requests := (pending_mcp_requests s)(k := None)\<rparr>) f
                then s\<lparr>pending_mcp_requests := (pending_mcp_requests s)(k := None)\<rparr>
                else set_result f r (s\<lparr>pending_mcp_requests := (pending_mcp_requests s)(k := None)\<rparr>))"
  using assms
  by (auto simp: handle_mcp_response_def reply_key_def Let_def split: sum.splits option.splits)

lemma receive_delivers:
  assumes run: "listener_task s = Some Running"
    and resp: "is_response r = Inr True"
    and rk: "reply_key r = Some k"
    and pk: "pending_mcp_requests s k = Some f"
    and fp: "f < length (futures s)" "futures s ! f = FPending"
    and st: "step (Receive (Text (Some r))) (s, cs) = (s', cs')"
  shows "cs' = cs \<and> f < length (futures s') \<and> futures s' ! f = FResult r"
  using assms handle_resolves[OF rk pk]
  by (auto simp: listen_step_def dispatch_def fut_done_def set_result_def)

lemma delivery:
  assumes inv: "correlated (s, cs)"
    and i: "i < length cs" "snd (cs ! i) = Suspended"
    and fp: "futures s ! c_future (fst (cs ! i)) = FPending"
    and lt: "listener_task s = Some Running"
    and resp: "is_response r = Inr True"
    and rk: "reply_key r = Some (c_request_id (fst (cs ! i)))"
  shows "snd (run (Receive (Text (Some r)) # es @ [Wake i]) (s, cs)) ! i = (fst (cs ! i), Returned r)"
proof -
  let ?c = "fst (cs ! i)"
  from i have mem: "cs ! i \<in> set cs" by simp
  with inv have ok: "call_ok s (cs ! i)" and flen: "c_future ?c < length (futures s)"
    by (simp_all add: correlated_def)
  from ok fp have pk: "pending_mcp_requests s (c_request_id ?c) = Some (c_future ?c)"
    by (simp add: call_ok_def)
  obtain s1 cs1 where st1: "step (Receive (Text (Some r))) (s, cs) = (s1, cs1)"
    by (cases "step (Receive (Text (Some r))) (s, cs)")
  from receive_delivers[OF lt resp rk pk flen fp st1]
  have cs1: "cs1 = cs" and f1: "c_future ?c < length (futures s1)" "futures s1 ! c_future ?c = FResult r"
    by blast+
  from correlated_step[OF inv, of "Receive (Text (Some r))"] st1 have inv1: "correlated (s1, cs)"
    by (simp add: cs1)
  obtain s2 cs2 where r2: "run es (s1, cs) = (s2, cs2)" by (cases "run es (s1, cs)")
  from result_stable_run[OF f1 i(1) r2]
  have f2: "c_future ?c < length (futures s2)" "futures s2 ! c_future ?c = FResult r"
    and i2: "i < length cs2" and c2: "fst (cs2 ! i) = ?c" by blast+
  from correlated_run[OF inv1, of es] r2 have inv2: "correlated (s2, cs2)" by simp
  from i2 have "cs2 ! i \<in> set cs2" by simp
  with inv2 have "call_ok s2 (cs2 ! i)" by (simp add: correlated_def)
  with f2 c2 have out: "snd (cs2 ! i) = Suspended \<or> snd (cs2 ! i) = Returned r"
    by (simp add: call_ok_def)
  have "run (Receive (Text (Some r)) # es @ [Wake i]) (s, cs) = step (Wake i) (s2, cs2)"
    using st1 cs1 r2 by (simp add: run_append)
  moreover have "snd (step (Wake i) (s2, cs2)) ! i = (?c, Returned r)"
  proof (cases "snd (cs2 ! i) = Suspended")
    case True
    with c2 have "cs2 ! i = (?c, Suspended)" by (metis prod.collapse)
    with i2 f2 show ?thesis
      by (simp add: send_mcp_request_wait_def)
  next
    case False
    with out have "snd (cs2 ! i) = Returned r" by simp
    with c2 have "cs2 ! i = (?c, Returned r)" by (metis prod.collapse)
    with i2 show ?thesis by simp
  qed
  ultimately show ?thesis by simp
qed

text \<open>
  Claim C1. Over every interleaving of calls to \<^verbatim>\<open>send_mcp_request\<close>, received frames,
  timeouts and clock ticks on an accepted connection: the request ids of the calls are
  strictly increasing in the order of the calls, hence distinct, positive and never above
  the counter, so no id is used twice; every entry of the pending table belongs to the one
  call that was given that id and holds that call's future, and no future stands under two
  ids; a call that returns a reply returns one whose \<^verbatim>\<open>id\<close> is its own request id (as
  the table's lookup compares keys); and a suspended call whose request is still pending
  returns exactly the reply with its id once that reply is received, whatever frames,
  calls, timeouts and other replies come in between.
\<close>

theorem request_reply_correlation:
  assumes reach: "run evs accepted = (s, cs)"
  shows "sorted_wrt (<) (map (c_request_id \<circ> fst) cs) \<and>
         distinct (map (c_request_id \<circ> fst) cs) \<and>
         (\<forall>co \<in> set cs. 0 < c_request_id (fst co) \<and> c_request_id (fst co) \<le> mcp_request_id s) \<and>
         (\<forall>k f. pending_mcp_requests s k = Some f \<longrightarrow>
            (\<exists>co \<in> set cs. c_request_id (fst co) = k \<and> c_future (fst co) = f)) \<and>
         (\<forall>k k' f. pending_mcp_requests s k = Some f \<and> pending_mcp_requests s k' = Some f \<longrightarrow> k = k') \<and>
         (\<forall>co \<in> set cs. \<forall>r. snd co = Returned r \<longrightarrow> reply_key r = Some (c_request_id (fst co))) \<and>
         (\<forall>i r es. i < length cs \<and> snd (cs ! i) = Suspended
              \<and> futures s ! c_future (fst (cs ! i)) = FPending
              \<and> listener_task s = Some Running
              \<and> is_response r = Inr True
              \<and> reply_key r = Some (c_request_id (fst (cs ! i))) \<longrightarrow>
            snd (run (Receive (Text (Some r)) # es @ [Wake i]) (s, cs)) ! i = (fst (cs ! i), Returned r))"
proof -
  from correlated_run[OF correlated_accepted, of evs] reach have inv: "correlated (s, cs)" by simp
  from inv have 1: "sorted_wrt (<) (map (c_request_id \<circ> fst) cs)" by (simp add: correlated_def)
  then have 2: "distinct (map (c_request_id \<circ> fst) cs)" by (simp add: strict_sorted_iff)
  from inv have 3: "\<forall>co \<in> set cs. 0 < c_request_id (fst co) \<and> c_request_id (fst co) \<le> mcp_request_id s"
    by (simp add: correlated_def)
  from inv have 4: "\<forall>k f. pending_mcp_requests s k = Some f \<longrightarrow>
            (\<exists>co \<in> set cs. c_request_id (fst co) = k \<and> c_future (fst co) = f)"
    by (simp add: correlated_def)
  from inv have dist: "distinct (map (c_future \<circ> fst) cs)" by (simp add: correlated_def)
  have 5: "\<forall>k k' f. pending_mcp_requests s k = Some f \<and> pending_mcp_requests s k' = Some f \<longrightarrow> k = k'"
  proof (intro allI impI)
    fix k k' f assume a: "pending_mcp_requests s k = Some f \<and> pending_mcp_requests s k' = Some f"
    with 4 obtain co co' where co: "co \<in> set cs" "c_request_id (fst co) = k" "c_future (fst co) = f"
      and co': "co' \<in> set cs" "c_request_id (fst co') = k'" "c_future (fst co') = f"
      by blast
    from dist co co' have "co = co'" by (auto simp: distinct_map inj_on_def)
    with co co' show "k = k'" by simp
  qed
  have 6: "\<forall>co \<in> set cs. \<forall>r. snd co = Returned r \<longrightarrow> reply_key r = Some (c_request_id (fst co))"
  proof (intro ballI allI impI)
    fix co r assume co: "co \<in> set cs" and r: "snd co = Returned r"
    from inv co have "call_ok s co" by (simp add: correlated_def)
    with r show "reply_key r = Some (c_request_id (fst co))"
      by (auto simp: call_ok_def split: fut_state.splits)
  qed
  have 7: "\<forall>i r es. i < length cs \<and> snd (cs ! i) = Suspended
              \<and> futures s ! c_future (fst (cs ! i)) = FPending
              \<and> listener_task s = Some Running
              \<and> is_response r = Inr True
              \<and> reply_key r = Some (c_request_id (fst (cs ! i))) \<longrightarrow>
            snd (run (Receive (Text (Some r)) # es @ [Wake i]) (s, cs)) ! i = (fst (cs ! i), Returned r)"
    using delivery[OF inv] by blast
  from 1 2 3 4 5 6 7 show ?thesis by blast
qed

lemmas eval_defs = accepted_def start_listening_def init_def two_issues_def example_reply_def
  send_mcp_request_issue_def send_text_def mcp_request_def mcp_timeout_def logging_def Let_def
  listen_step_def dispatch_def is_response_def handle_mcp_response_def fut_done_def set_result_def
  send_mcp_request_wait_def reply_key_def create_task_def

theorem request_reply_correlation_witness:
  "map (c_request_id \<circ> fst) (snd (run two_issues accepted)) = [1, 2] \<and>
   snd (snd (run two_issues accepted) ! 1) = Suspended \<and>
   futures (fst (run two_issues accepted)) ! c_future (fst (snd (run two_issues accepted) ! 1)) = FPending \<and>
   listener_task (fst (run two_issues accepted)) = Some Running \<and>
   is_response (example_reply 2) = Inr True \<and>
   reply_key (example_reply 2) = Some (c_request_id (fst (snd (run two_issues accepted) ! 1))) \<and>
   snd (snd (run (Receive (Text (Some (example_reply 2)))
                  # [Receive (Text (Some (example_reply 1))), Wake 0] @ [Wake 1])
               (run two_issues accepted)) ! 1) = Returned (example_reply 2) \<and>
   snd (snd (run (Receive (Text (Some (example_reply 2)))
                  # [Receive (Text (Some (example_reply 1))), Wake 0] @ [Wake 1])
               (run two_issues accepted)) ! 0) = Returned (example_reply 1)"
proof -
  note T = request_reply_correlation[OF surjective_pairing, of two_issues]
  have ids: "map (c_request_id \<circ> fst) (snd (run two_issues accepted)) = [1, 2]"
    by (simp add: eval_defs)
  have hyps: "1 < length (snd (run two_issues accepted)) \<and>
      snd (snd (run two_issues accepted) ! 1) = Suspended \<and>
      futures (fst (run two_issues accepted)) ! c_future (fst (snd (run two_issues accepted) ! 1)) = FPending \<and>
      listener_task (fst (run two_issues accepted)) = Some Running \<and>
      is_response (example_reply 2) = Inr True \<and>
      reply_key (example_reply 2) = Some (c_request_id (fst (snd (run two_issues accepted) ! 1)))"
    by (simp add: eval_defs)
  from T have "\<forall>i r es. i < length (snd (run two_issues accepted)) \<and> snd (snd (run two_issues accepted) ! i) = Suspended
              \<and> futures (fst (run two_issues accepted)) ! c_future (fst (snd (run two_issues accepted) ! i)) = FPending
              \<and> listener_task (fst (run two_issues accepted)) = Some Running
              \<and> is_response r = Inr True
              \<and> reply_key r = Some (c_request_id (fst (snd (run two_issues accepted) ! i))) \<longrightarrow>
            snd (run (Receive (Text (Some r)) # es @ [Wake i]) (fst (run two_issues accepted), snd (run two_issues accepted))) ! i
              = (fst (snd (run two_issues accepted) ! i), Returned r)"
    by blast
  from this[rule_format, of 1 "example_reply 2" "[Receive (Text (Some (example_reply 1))), Wake 0]"] hyps
  have d: "snd (snd (run (Receive (Text (Some (example_reply 2)))
                  # [Receive (Text (Some (example_reply 1))), Wake 0] @ [Wake 1])
               (run two_issues accepted)) ! 1) = Returned (example_reply 2)"
    by simp
  have other: "snd (snd (run (Receive (Text (Some (example_reply 2)))
                  # [Receive (Text (Some (example_reply 1))), Wake 0] @ [Wake 1])
               (run two_issues accepted)) ! 0) = Returned (example_reply 1)"
    by (simp add: eval_defs)
  from ids hyps d other show ?thesis by blast
qed

section \<open>The listener loop\<close>

lemma is_response_obj:
  "is_response (JObj kvs) = Inr (''jsonrpc'' \<in> fst ` set kvs \<and> ''method'' \<notin> fst ` set kvs)"
  by (auto simp: is_response_def split: bool.splits)




text \<open>
  Claim C5. A frame classified as a reply whose id matches no entry of the pending table
  is logged and dropped: the listener appends one log entry and changes nothing else
  (the table, the futures, the frames sent and the tasks stay as they were), raises
  nothing and goes on with the next frame. A reply that has been handled once matches no
  entry afterwards, so a duplicate is dropped in the same way.
\<close>

theorem unmatched_reply_dropped:
  "(is_response m = Inr True \<and> unmatched s m \<longrightarrow>
      listen_step (Text (Some m)) s = (Continue, logging (unmatched_log m) s) \<and>
      listen (Text (Some m) # rs) s = listen rs (logging (unmatched_log m) s) \<and>
      pending_mcp_requests (logging (unmatched_log m) s) = pending_mcp_requests s \<and>
      futures (logging (unmatched_log m) s) = futures s \<and>
      sent (logging (unmatched_log m) s) = sent s \<and>
      tasks (logging (unmatched_log m) s) = tasks s \<and>
      log (logging (unmatched_log m) s) = log s @ [unmatched_log m]) \<and>
   (handle_mcp_response m s = Inr s1 \<longrightarrow> unmatched s1 m)"
proof -
  have 1: "listen_step (Text (Some m)) s = (Continue, logging (unmatched_log m) s)"
    if "is_response m = Inr True" "unmatched s m"
    using that
    by (auto simp: listen_step_def dispatch_def handle_mcp_response_def unmatched_def
        unmatched_log_def reply_key_def split: sum.splits option.splits)
  have 2: "unmatched s1 m" if "handle_mcp_response m s = Inr s1"
    using that
    by (auto simp: handle_mcp_response_def unmatched_def reply_key_def logging_def set_result_def
        Let_def split: sum.splits option.splits if_splits)
  from 1 2 show ?thesis by (auto simp: logging_def)
qed

theorem unmatched_reply_dropped_witness:
  "is_response (example_reply 7) = Inr True \<and>
   unmatched (fst (run two_issues accepted)) (example_reply 7) \<and>
   listen_step (Text (Some (example_reply 7))) (fst (run two_issues accepted))
     = (Continue, logging (UnknownRequestId (JInt 7)) (fst (run two_issues accepted))) \<and>
   handle_mcp_response (example_reply 2) (fst (run two_issues accepted))
     = Inr (fst (run (two_issues @ [Receive (Text (Some (example_reply 2)))]) accepted)) \<and>
   unmatched (fst (run (two_issues @ [Receive (Text (Some (example_reply 2)))]) accepted)) (example_reply 2)"
proof -
  have h: "is_response (example_reply 7) = Inr True \<and>
     unmatched (fst (run two_issues accepted)) (example_reply 7)"
    by (simp add: eval_defs unmatched_def)
  have l: "unmatched_log (example_reply 7) = UnknownRequestId (JInt 7)"
    by (simp add: unmatched_log_def example_reply_def)
  have d: "handle_mcp_response (example_reply 2) (fst (run two_issues accepted))
     = Inr (fst (run (two_issues @ [Receive (Text (Some (example_reply 2)))]) accepted))"
    by (simp add: eval_defs)
  from unmatched_reply_dropped[where m = "example_reply 7" and s = "fst (run two_issues accepted)"] h l
  have c: "listen_step (Text (Some (example_reply 7))) (fst (run two_issues accepted))
     = (Continue, logging (UnknownRequestId (JInt 7)) (fst (run two_issues accepted)))"
    by simp
  from unmatched_reply_dropped[where m = "example_reply 2" and s = "fst (run two_issues accepted)"
      and ?s1.0 = "fst (run (two_issues @ [Receive (Text (Some (example_reply 2)))]) accepted)"] d
  have u: "unmatched (fst (run (two_issues @ [Receive (Text (Some (example_reply 2)))]) accepted)) (example_reply 2)"
    by blast
  from h c d u show ?thesis by blast
qed

text \<open>
  Claim C10. A decoded object that is not a reply (it lacks \<^verbatim>\<open>jsonrpc\<close>, or carries
  both \<^verbatim>\<open>jsonrpc\<close> and \<^verbatim>\<open>method\<close>) and whose \<^verbatim>\<open>message\<close> is absent or the empty
  string is ignored without a trace: no task is created, no frame is sent, nothing is
  logged, whatever its \<^verbatim>\<open>messageId\<close>, and the loop goes on.
\<close>

theorem empty_message_ignored:
  "\<not> (''jsonrpc'' \<in> fst ` set kvs \<and> ''method'' \<notin> fst ` set kvs) \<and>
   (map_of kvs ''message'' = None \<or> map_of kvs ''message'' = Some (JStr [])) \<longrightarrow>
     listen_step (Text (Some (JObj kvs))) s = (Continue, s) \<and>
     listen (Text (Some (JObj kvs)) # rs) s = listen rs s"
proof (intro impI)
  assume a: "\<not> (''jsonrpc'' \<in> fst ` set kvs \<and> ''method'' \<notin> fst ` set kvs) \<and>
   (map_of kvs ''message'' = None \<or> map_of kvs ''message'' = Some (JStr []))"
  then have r: "is_response (JObj kvs) = Inr False" by (simp add: is_response_obj)
  from a have m: "py_get (JObj kvs) ''message'' (JStr []) = Inr (JStr [])" by auto
  from r m have "listen_step (Text (Some (JObj kvs))) s = (Continue, s)"
    by (simp add: listen_step_def dispatch_def)
  then show "listen_step (Text (Some (JObj kvs))) s = (Continue, s) \<and>
     listen (Text (Some (JObj kvs)) # rs) s = listen rs s" by simp
qed

theorem empty_message_ignored_witness:
  "\<not> (''jsonrpc'' \<in> fst ` set [(''jsonrpc'', JStr ''2.0''), (''method'', JStr ''ping''), (''messageId'', JStr ''7'')]
       \<and> ''method'' \<notin> fst ` set [(''jsonrpc'', JStr ''2.0''), (''method'', JStr ''ping''), (''messageId'', JStr ''7'')]) \<and>
   map_of [(''jsonrpc'', JStr ''2.0''), (''method'', JStr ''ping''), (''messageId'', JStr ''7'')] ''message'' = None \<and>
   listen_step (Text (Some ping_frame)) (start_listening init) = (Continue, start_listening init) \<and>
   tasks (snd (listen_step (Text (Some ping_frame)) (start_listening init))) = [] \<and>
   sent (snd (listen_step (Text (Some ping_frame)) (start_listening init))) = [] \<and>
   log (snd (listen_step (Text (Some ping_frame)) (start_listening init))) = []"
  using empty_message_ignored[of "[(''jsonrpc'', JStr ''2.0''), (''method'', JStr ''ping''), (''messageId'', JStr ''7'')]"
      "start_listening init" "[]"]
  by (simp add: ping_frame_def start_listening_def init_def)

section \<open>Teardown and timeout\<close>

text \<open>
  Claim C3, as stated, fails: after a request has been issued and the listener has ended
  on a disconnect, the entry is still in the table, its future is still pending, and the
  caller, looked at before its deadline, is still suspended. Nothing has failed it.
\<close>

theorem teardown_fails_pending_requests_counterexample:
  "listener_task (fst (run teardown_run accepted)) = Some Finished \<and>
   pending_mcp_requests (fst (run teardown_run accepted)) 1 = Some 0 \<and>
   futures (fst (run teardown_run accepted)) = [FPending] \<and>
   map snd (snd (run teardown_run accepted)) = [Suspended]"
  by (simp add: eval_defs teardown_run_def cleanup_def task_done_def)

text \<open>
  Claim C3, amended. When the listener loop ends (on a disconnect, on another exception
  of the receive, or on cancellation), \<^verbatim>\<open>cleanup\<close> only asks for the cancellation of the
  listener task and logs: the pending table and every future are left as they were. A
  caller whose request is pending stays suspended until its own deadline, and is then
  given TimeoutError.
\<close>

theorem teardown_leaves_pending:
  "(r = Disconnect \<or> r = Cancelled \<or> r = ReceiveError e \<longrightarrow>
      fst (listen_step r s) = Stop \<and>
      pending_mcp_requests (snd (listen_step r s)) = pending_mcp_requests s \<and>
      futures (snd (listen_step r s)) = futures s \<and>
      clock (snd (listen_step r s)) = clock s \<and>
      (\<forall>c. c_future c < length (futures s) \<and> futures s ! c_future c = FPending \<longrightarrow>
           fst (send_mcp_request_wait c (snd (listen_step r s)))
             = (if c_deadline c \<le> clock s then Raised TimeoutError else Suspended))) \<and>
   pending_mcp_requests (cleanup s) = pending_mcp_requests s \<and>
   futures (cleanup s) = futures s \<and>
   sent (cleanup s) = sent s \<and>
   log (cleanup s) = log s @ [CleanedUp]"
  by (auto simp: listen_step_def cleanup_def task_done_def logging_def send_mcp_request_wait_def
      split: option.splits)

theorem teardown_leaves_pending_witness:
  "fst (listen_step Disconnect (fst (run [Issue ''tools/list'' JNull] accepted))) = Stop \<and>
   pending_mcp_requests (snd (listen_step Disconnect (fst (run [Issue ''tools/list'' JNull] accepted)))) 1 = Some 0 \<and>
   futures (snd (listen_step Disconnect (fst (run [Issue ''tools/list'' JNull] accepted)))) = [FPending] \<and>
   c_future (fst (snd (run [Issue ''tools/list'' JNull] accepted) ! 0)) = 0 \<and>
   c_deadline (fst (snd (run [Issue ''tools/list'' JNull] accepted) ! 0)) = 15 \<and>
   clock (fst (run [Issue ''tools/list'' JNull] accepted)) = 0 \<and>
   fst (send_mcp_request_wait (fst (snd (run [Issue ''tools/list'' JNull] accepted) ! 0))
          (snd (listen_step Disconnect (fst (run [Issue ''tools/list'' JNull] accepted))))) = Suspended"
proof -
  let ?s = "fst (run [Issue ''tools/list'' JNull] accepted)"
  let ?c = "fst (snd (run [Issue ''tools/list'' JNull] accepted) ! 0)"
  have s: "pending_mcp_requests ?s 1 = Some 0 \<and> futures ?s = [FPending] \<and> clock ?s = 0"
    by (simp add: eval_defs)
  have c: "c_future ?c = 0 \<and> c_deadline ?c = 15"
    by (simp add: eval_defs)
  note T = teardown_leaves_pending[where r = Disconnect and s = ?s]
  from T have 1: "fst (listen_step Disconnect ?s) = Stop"
    and 2: "pending_mcp_requests (snd (listen_step Disconnect ?s)) = pending_mcp_requests ?s"
    and 3: "futures (snd (listen_step Disconnect ?s)) = futures ?s"
    and 4: "\<forall>c. c_future c < length (futures ?s) \<and> futures ?s ! c_future c = FPending \<longrightarrow>
           fst (send_mcp_request_wait c (snd (listen_step Disconnect ?s)))
             = (if c_deadline c \<le> clock ?s then Raised TimeoutError else Suspended)"
    by blast+
  from 4[rule_format, of ?c] s c
  have 5: "fst (send_mcp_request_wait ?c (snd (listen_step Disconnect ?s))) = Suspended"
    by simp
  from 1 2 3 5 s c show ?thesis by simp
qed

text \<open>
  Claim C4, on the code. A request is issued and no reply comes. Looked at after 14 time
  units the caller is still suspended; after 15 it is given TimeoutError, its future is
  cancelled and the timeout is logged, but the entry for id 1 is still in the pending
  table. The handler for a failed send, next to it, does pop the entry. A reply for id 1
  that comes after the timeout is not given to the caller (its outcome and its future stay
  as they were, nothing is logged), and only then does the entry leave the table.
\<close>

theorem timeout_leaves_entry:
  "map snd (snd (run (take 16 timeout_run) accepted)) = [Suspended] \<and>
   map snd (snd (run timeout_run accepted)) = [Raised TimeoutError] \<and>
   futures (fst (run timeout_run accepted)) = [FCancelled] \<and>
   log (fst (run timeout_run accepted)) = [TimeoutWaiting 1] \<and>
   pending_mcp_requests (fst (run timeout_run accepted)) 1 = Some 0 \<and>
   pending_mcp_requests
     (snd (send_mcp_request_issue ''tools/list'' JNull ((start_listening init)\<lparr>ws_open := False\<rparr>))) 1 = None \<and>
   map snd (snd (run late_reply_run accepted)) = [Raised TimeoutError] \<and>
   futures (fst (run late_reply_run accepted)) = [FCancelled] \<and>
   log (fst (run late_reply_run accepted)) = [TimeoutWaiting 1] \<and>
   pending_mcp_requests (fst (run late_reply_run accepted)) 1 = None"
  by (simp add: eval_defs timeout_run_def late_reply_run_def)

section \<open>Tools: invocation and discovery\<close>

lemma py_in_obj: "py_in k (JObj kvs) = Inr (map_of kvs k \<noteq> None)"
  by (simp add: map_of_eq_None_iff)

lemma create_tool_wf:
  assumes "descriptor_fields d = Some (name, description, schema)"
  shows "create_tool conv d s = (Inr \<lparr>t_name = name, t_description = description, t_tool_info = d,
                                       t_args_schema = converted conv schema\<rparr>,
                                 s\<lparr>log := log s @ schema_failure conv d\<rparr>)"
proof -
  from assms obtain kvs where d: "d = JObj kvs"
    and n: "map_of kvs ''name'' = Some (JStr name)"
    and de: "map_of kvs ''description'' = Some (JStr description)"
    and sc: "map_of kvs ''inputSchema'' = schema"
    by (auto simp: descriptor_fields_def split: json.splits option.splits)
  show ?thesis
  proof (cases schema)
    case None
    with d n de sc assms show ?thesis
      by (simp add: create_tool_def py_in_obj converted_def schema_failure_def del: py_in.simps)
  next
    case (Some j)
    with d n de sc assms show ?thesis
      by (cases "conv j")
        (simp_all add: create_tool_def py_in_obj converted_def schema_failure_def logging_def
          del: py_in.simps)
  qed
qed

lemma create_tools_wf:
  assumes "\<forall>d \<in> set ds. descriptor_fields d \<noteq> None"
  shows "\<exists>tools. create_tools conv ds acc s
            = (Inr (acc @ tools), s\<lparr>log := log s @ concat (map (schema_failure conv) ds)\<rparr>)
          \<and> map Some tools = map (proxy conv) ds"
  using assms
proof (induction ds arbitrary: acc s)
  case Nil
  then show ?case by simp
next
  case (Cons d ds)
  then obtain name description schema where f: "descriptor_fields d = Some (name, description, schema)"
    by (cases "descriptor_fields d") auto
  let ?t = "\<lparr>t_name = name, t_description = description, t_tool_info = d,
             t_args_schema = converted conv schema\<rparr>"
  let ?s1 = "s\<lparr>log := log s @ schema_failure conv d\<rparr>"
  from Cons.prems have "\<forall>d \<in> set ds. descriptor_fields d \<noteq> None" by simp
  from Cons.IH[OF this, of "acc @ [?t]" ?s1]
  obtain tools where t: "create_tools conv ds (acc @ [?t]) ?s1
            = (Inr ((acc @ [?t]) @ tools), ?s1\<lparr>log := log ?s1 @ concat (map (schema_failure conv) ds)\<rparr>)"
    and m: "map Some tools = map (proxy conv) ds" by blast
  have "create_tools conv (d # ds) acc s
      = (Inr (acc @ (?t # tools)), s\<lparr>log := log s @ concat (map (schema_failure conv) (d # ds))\<rparr>)"
    using create_tool_wf[OF f, of conv s] t by simp
  moreover have "map Some (?t # tools) = map (proxy conv) (d # ds)"
    using m f by (simp add: proxy_def)
  ultimately show ?case by blast
qed

lemma discover_resume_wf:
  assumes "map_of kvs ''error'' = None" "map_of kvs ''result'' = Some (JObj res)"
    "map_of res ''tools'' = Some (JList ds)" "\<forall>d \<in> set ds. descriptor_fields d \<noteq> None"
  shows "map Some (fst (discover_resume conv (Inr (JObj kvs)) s)) = map (proxy conv) ds \<and>
         snd (discover_resume conv (Inr (JObj kvs)) s)
           = s\<lparr>log := log s @ concat (map (schema_failure conv) ds)\<rparr>"
proof -
  from create_tools_wf[OF assms(4), of conv "[]" s]
  obtain tools where t: "create_tools conv ds [] s
            = (Inr tools, s\<lparr>log := log s @ concat (map (schema_failure conv) ds)\<rparr>)"
    and m: "map Some tools = map (proxy conv) ds" by auto
  from assms(1-3) t have "discover_resume conv (Inr (JObj kvs)) s
       = (tools, s\<lparr>log := log s @ concat (map (schema_failure conv) ds)\<rparr>)"
    by (simp add: discover_resume_def tools_of_response_def py_in_obj del: py_in.simps)
  with m show ?thesis by simp
qed

lemma issue_open:
  assumes "ws_open s"
  shows "send_mcp_request_issue method params s =
           (Inr \<lparr>c_request_id = mcp_request_id s + 1, c_future = length (futures s),
                 c_deadline = clock s + 15\<rparr>,
            s\<lparr>mcp_request_id := mcp_request_id s + 1,
              futures := futures s @ [FPending],
              pending_mcp_requests := (pending_mcp_requests s)(mcp_request_id s + 1 \<mapsto> length (futures s)),
              sent := sent s @ [mcp_request method params (mcp_request_id s + 1)]\<rparr>)"
  using assms
  by (simp add: send_mcp_request_issue_def send_text_def Let_def mcp_timeout_def)

lemma wf_examples:
  "descriptor_fields click_descriptor = Some (''click'', ''Click a button'', Some (JStr ''broken''))"
  "descriptor_fields fill_descriptor
     = Some (''fill'', ''Fill a field'', Some (JObj [(''type'', JStr ''object'')]))"
  by (simp_all add: descriptor_fields_def click_descriptor_def fill_descriptor_def)




text \<open>
  Claim C7, as stated, fails: discovery sends the method \<^verbatim>\<open>tools/list\<close>, not
  \<^verbatim>\<open>list\<close>, and a reply whose result holds its descriptors under
  \<^verbatim>\<open>capabilities\<close> yields no tool.
\<close>

theorem discovery_method_is_list_counterexample:
  "map (\<lambda>frame. py_get frame ''method'' JNull)
       (sent (snd (discover_issue (start_listening init) :: (unit tool list + caller) \<times> conn)))
     = [Inr (JStr ''tools/list'')] \<and>
   JStr ''tools/list'' \<noteq> JStr ''list'' \<and>
   descriptor_fields fill_descriptor = Some (''fill'', ''Fill a field'', Some (JObj [(''type'', JStr ''object'')])) \<and>
   fst (discover_resume objects_only (Inr capabilities_reply) (start_listening init)) = []"
  by (simp add: discover_issue_def discover_resume_def tools_of_response_def capabilities_reply_def
      fill_descriptor_def descriptor_fields_def eval_defs)

text \<open>
  Claim C7, amended. On an open transport discovery sends one request: method
  \<^verbatim>\<open>tools/list\<close>, a fresh id under which the caller's future is entered in the pending
  table, and no params. From a reply without \<^verbatim>\<open>error\<close> it reads the descriptors under
  \<^verbatim>\<open>tools\<close> of \<^verbatim>\<open>result\<close>: well-formed descriptors give their proxies, one each and in
  order; a result without \<^verbatim>\<open>tools\<close>, or a reply without \<^verbatim>\<open>result\<close>, gives none.
\<close>

theorem discovery_request_and_result:
  "(ws_open s \<longrightarrow>
      fst (discover_issue s :: ('schema tool list + caller) \<times> conn)
        = Inr \<lparr>c_request_id = mcp_request_id s + 1, c_future = length (futures s),
               c_deadline = clock s + 15\<rparr> \<and>
      sent (snd (discover_issue s :: ('schema tool list + caller) \<times> conn))
        = sent s @ [JObj [(''jsonrpc'', JStr ''2.0''), (''method'', JStr ''tools/list''),
                          (''id'', JInt (mcp_request_id s + 1))]] \<and>
      pending_mcp_requests (snd (discover_issue s :: ('schema tool list + caller) \<times> conn))
        = (pending_mcp_requests s)(mcp_request_id s + 1 \<mapsto> length (futures s))) \<and>
   (map_of kvs ''error'' = None \<and> map_of kvs ''result'' = Some (JObj res)
      \<and> map_of res ''tools'' = Some (JList ds) \<and> (\<forall>d \<in> set ds. descriptor_fields d \<noteq> None) \<longrightarrow>
      map Some (fst (discover_resume (conv :: json \<Rightarrow> exn + 'schema) (Inr (JObj kvs)) s))
        = map (proxy conv) ds) \<and>
   (map_of kvs ''error'' = None \<and> map_of kvs ''result'' = Some (JObj res)
      \<and> map_of res ''tools'' = None \<longrightarrow>
      fst (discover_resume conv (Inr (JObj kvs)) s) = []) \<and>
   (map_of kvs ''error'' = None \<and> map_of kvs ''result'' = None \<longrightarrow>
      fst (discover_resume conv (Inr (JObj kvs)) s) = [])"
proof -
  have 1: "ws_open s \<Longrightarrow>
      fst (discover_issue s :: ('schema tool list + caller) \<times> conn)
        = Inr \<lparr>c_request_id = mcp_request_id s + 1, c_future = length (futures s),
               c_deadline = clock s + 15\<rparr> \<and>
      sent (snd (discover_issue s :: ('schema tool list + caller) \<times> conn))
        = sent s @ [JObj [(''jsonrpc'', JStr ''2.0''), (''method'', JStr ''tools/list''),
                          (''id'', JInt (mcp_request_id s + 1))]] \<and>
      pending_mcp_requests (snd (discover_issue s :: ('schema tool list + caller) \<times> conn))
        = (pending_mcp_requests s)(mcp_request_id s + 1 \<mapsto> length (futures s))"
    by (simp add: discover_issue_def issue_open mcp_request_def)
  have 3: "map_of kvs ''error'' = None \<Longrightarrow> map_of kvs ''result'' = Some (JObj res)
      \<Longrightarrow> map_of res ''tools'' = None \<Longrightarrow>
      fst (discover_resume conv (Inr (JObj kvs)) s) = []"
    by (simp add: discover_resume_def tools_of_response_def py_in_obj del: py_in.simps)
  have 4: "map_of kvs ''error'' = None \<Longrightarrow> map_of kvs ''result'' = None \<Longrightarrow>
      fst (discover_resume conv (Inr (JObj kvs)) s) = []"
    by (simp add: discover_resume_def tools_of_response_def py_in_obj del: py_in.simps)
  from 1 3 4 discover_resume_wf[of kvs res ds conv s] show ?thesis by blast
qed

theorem discovery_request_and_result_witness:
  "ws_open (start_listening init) \<and>
   sent (snd (discover_issue (start_listening init) :: (unit tool list + caller) \<times> conn))
     = [JObj [(''jsonrpc'', JStr ''2.0''), (''method'', JStr ''tools/list''), (''id'', JInt 1)]] \<and>
   map_of [(''jsonrpc'', JStr ''2.0''), (''id'', JInt 1),
           (''result'', JObj [(''tools'', JList [click_descriptor, fill_descriptor])])] ''error'' = None \<and>
   descriptor_fields click_descriptor \<noteq> None \<and> descriptor_fields fill_descriptor \<noteq> None \<and>
   fst (discover_resume objects_only (Inr tools_reply) (start_listening init))
     = [\<lparr>t_name = ''click'', t_description = ''Click a button'', t_tool_info = click_descriptor,
         t_args_schema = None\<rparr>,
        \<lparr>t_name = ''fill'', t_description = ''Fill a field'', t_tool_info = fill_descriptor,
         t_args_schema = Some ()\<rparr>]"
proof -
  have h: "ws_open (start_listening init)" by (simp add: start_listening_def init_def)
  have s0: "sent (start_listening init) = []" "mcp_request_id (start_listening init) = 0"
    by (simp_all add: start_listening_def init_def)
  note T = discovery_request_and_result[where s = "start_listening init"
      and kvs = "[(''jsonrpc'', JStr ''2.0''), (''id'', JInt 1),
           (''result'', JObj [(''tools'', JList [click_descriptor, fill_descriptor])])]"
      and res = "[(''tools'', JList [click_descriptor, fill_descriptor])]"
      and ds = "[click_descriptor, fill_descriptor]" and conv = objects_only]
  from T h s0 have 1: "sent (snd (discover_issue (start_listening init) :: (unit tool list + caller) \<times> conn))
     = [JObj [(''jsonrpc'', JStr ''2.0''), (''method'', JStr ''tools/list''), (''id'', JInt 1)]]"
    by simp
  from T have "map Some (fst (discover_resume objects_only (Inr tools_reply) (start_listening init)))
      = map (proxy objects_only) [click_descriptor, fill_descriptor]"
    by (simp add: tools_reply_def wf_examples)
  then have 2: "fst (discover_resume objects_only (Inr tools_reply) (start_listening init))
     = [\<lparr>t_name = ''click'', t_description = ''Click a button'', t_tool_info = click_descriptor,
         t_args_schema = None\<rparr>,
        \<lparr>t_name = ''fill'', t_description = ''Fill a field'', t_tool_info = fill_descriptor,
         t_args_schema = Some ()\<rparr>]"
    by (simp add: proxy_def wf_examples converted_def map_eq_Cons_conv)
  from h 1 2 show ?thesis by (simp add: wf_examples)
qed



section \<open>Work items and their replies\<close>




end
